theory Spec2Isabelle
  imports Complex_Main "HOL-Library.Multiset"
begin

section \<open>Two-machine flow shop: Johnson's rule, schedule and metrics (flow.py)\<close>

text \<open>
  Processing times and timestamps are modelled as rationals: the integers of the default
  table and every decimal a cell of the editor can hold are rationals, and \<open>+\<close>, \<open>-\<close>,
  \<open>max\<close>, \<open>min\<close> and the comparisons of the source are exact on them. Python's \<open>/\<close> is
  modelled as exact division that raises \<open>ZeroDivisionError\<close> on a zero divisor (as it
  does on Python \<open>int\<close> and \<open>float\<close>); the rounding of the float quotient is not modelled.
  Task indices are natural numbers.
\<close>

subsection \<open>Python list primitives\<close>

datatype py_error = IndexError | ValueError | ZeroDivisionError

type_synonym times = "rat \<times> rat"
type_synonym task = "nat \<times> times"

text \<open>\<open>enumerate(xs)\<close> turned into a list.\<close>

definition py_enumerate :: "'a list \<Rightarrow> (nat \<times> 'a) list" where
  "py_enumerate xs = zip [0..<length xs] xs"

text \<open>
  The scan of \<open>min(iterable, key=f)\<close>: the first item is the running best, a later item
  replaces it only when its key is strictly smaller. \<open>min\<close> of an empty list raises
  \<open>ValueError\<close>.
\<close>

fun min_scan :: "('a \<Rightarrow> rat) \<Rightarrow> 'a \<Rightarrow> 'a list \<Rightarrow> 'a" where
  "min_scan key best [] = best"
| "min_scan key best (x # xs) = min_scan key (if key x < key best then x else best) xs"

definition py_min :: "('a \<Rightarrow> rat) \<Rightarrow> 'a list \<Rightarrow> py_error + 'a" where
  "py_min key xs = (case xs of [] \<Rightarrow> Inl ValueError | x # rest \<Rightarrow> Inr (min_scan key x rest))"

text \<open>\<open>xs.remove(x)\<close>: drops the first item equal to \<open>x\<close>, \<open>ValueError\<close> when there is none.\<close>

definition py_remove :: "'a \<Rightarrow> 'a list \<Rightarrow> py_error + 'a list" where
  "py_remove x xs = (if x \<in> set xs then Inr (remove1 x xs) else Inl ValueError)"

text \<open>\<open>xs[i]\<close> for an index \<open>i \<ge> 0\<close>, and \<open>xs[-1]\<close>.\<close>

definition py_get :: "'a list \<Rightarrow> nat \<Rightarrow> py_error + 'a" where
  "py_get xs i = (if i < length xs then Inr (xs ! i) else Inl IndexError)"

definition py_last :: "'a list \<Rightarrow> py_error + 'a" where
  "py_last xs = (if xs = [] then Inl IndexError else Inr (last xs))"

subsection \<open>The Sequencer: \<open>johnsons_rule\<close>\<close>

text \<open>The key of the selection, \<open>lambda x: min(x[1])\<close>.\<close>

fun task_key :: "task \<Rightarrow> rat" where
  "task_key (idx, (p1, p2)) = min p1 p2"

text \<open>
  The \<open>while tasks:\<close> loop, with \<open>tasks\<close>, \<open>left\<close> and \<open>right\<close> as its state. It returns
  the two lists it has built when \<open>tasks\<close> is empty. The source updates \<open>left\<close> or
  \<open>right\<close> before it calls \<open>tasks.remove\<close>; an exception of \<open>remove\<close> discards both, so
  the model may test it first.
\<close>

function johnsons_loop :: "task list \<Rightarrow> nat list \<Rightarrow> nat list \<Rightarrow> py_error + (nat list \<times> nat list)" where
  "johnsons_loop tasks left right =
     (if tasks = [] then Inr (left, right)
      else case py_min task_key tasks of
        Inl e \<Rightarrow> Inl e
      | Inr (idx, (p1, p2)) \<Rightarrow>
          (case py_remove (idx, (p1, p2)) tasks of
             Inl e \<Rightarrow> Inl e
           | Inr tasks' \<Rightarrow>
               if p1 \<le> p2 then johnsons_loop tasks' (left @ [idx]) right
               else johnsons_loop tasks' left (idx # right)))"
  by pat_completeness auto
termination
proof (relation "measure (\<lambda>(tasks, left, right). length tasks)")
  show "wf (measure (\<lambda>(tasks, left, right). length tasks))" by simp
next
  fix tasks :: "task list" and left right :: "nat list" and x y idx p1 p2 tasks'
  assume "py_remove x tasks = Inr tasks'"
  then show "((tasks', left @ [idx], right), (tasks, left, right))
      \<in> measure (\<lambda>(tasks, left, right). length tasks)"
    using length_pos_if_in_set [of x tasks]
    by (auto simp: py_remove_def length_remove1 split: if_splits)
next
  fix tasks :: "task list" and left right :: "nat list" and x y idx p1 p2 tasks'
  assume "py_remove x tasks = Inr tasks'"
  then show "((tasks', left, idx # right), (tasks, left, right))
      \<in> measure (\<lambda>(tasks, left, right). length tasks)"
    using length_pos_if_in_set [of x tasks]
    by (auto simp: py_remove_def length_remove1 split: if_splits)
qed

declare johnsons_loop.simps [simp del]

definition johnsons_lists :: "times list \<Rightarrow> py_error + (nat list \<times> nat list)" where
  "johnsons_lists processing_times = johnsons_loop (py_enumerate processing_times) [] []"

definition johnsons_rule :: "times list \<Rightarrow> py_error + nat list" where
  "johnsons_rule processing_times =
     (case johnsons_lists processing_times of
        Inl e \<Rightarrow> Inl e
      | Inr (left, right) \<Rightarrow> Inr (left @ right))"

subsection \<open>The Schedule Simulator: \<open>calculate_schedule\<close>\<close>

type_synonym timing = "rat list \<times> rat list \<times> rat list \<times> rat list"

text \<open>
  The \<open>for i, idx in enumerate(sequence)\<close> loop over the four arrays
  \<open>(start_m1, finish_m1, start_m2, finish_m2)\<close>, each assignment in the order of the
  source. \<open>processing_times[idx]\<close> raises \<open>IndexError\<close> when \<open>idx\<close> is out of range.
  The arrays are created with length \<open>n = len(sequence)\<close> and \<open>i\<close> runs below \<open>n\<close>, so the
  reads and writes at \<open>i\<close> and \<open>i - 1\<close> are in range and are written with \<open>!\<close> and
  list update.
\<close>

fun schedule_loop :: "times list \<Rightarrow> (nat \<times> nat) list \<Rightarrow> timing \<Rightarrow> py_error + timing" where
  "schedule_loop processing_times [] arrays = Inr arrays"
| "schedule_loop processing_times ((i, idx) # rest) (start_m1, finish_m1, start_m2, finish_m2) =
     (case py_get processing_times idx of
        Inl e \<Rightarrow> Inl e
      | Inr (p1, p2) \<Rightarrow>
          (let start_m1' = start_m1[i := (if i > 0 then finish_m1 ! (i - 1) else 0)];
               finish_m1' = finish_m1[i := start_m1' ! i + p1];
               start_m2' = start_m2[i := max (if i > 0 then finish_m2 ! (i - 1) else 0) (finish_m1' ! i)];
               finish_m2' = finish_m2[i := start_m2' ! i + p2]
           in schedule_loop processing_times rest (start_m1', finish_m1', start_m2', finish_m2')))"

definition calculate_schedule :: "times list \<Rightarrow> nat list \<Rightarrow> py_error + timing" where
  "calculate_schedule processing_times sequence =
     (let n = length sequence
      in schedule_loop processing_times (py_enumerate sequence)
           (replicate n 0, replicate n 0, replicate n 0, replicate n 0))"

subsection \<open>The Metrics Calculator: \<open>calculate_delays\<close> and \<open>calculate_metrics\<close>\<close>

text \<open>The \<open>for i in range(1, len(start_m2))\<close> loop that accumulates \<open>delay_m2\<close>.\<close>

fun delays_loop :: "rat list \<Rightarrow> rat list \<Rightarrow> nat list \<Rightarrow> rat \<Rightarrow> py_error + rat" where
  "delays_loop start_m2 finish_m2 [] delay_m2 = Inr delay_m2"
| "delays_loop start_m2 finish_m2 (i # rest) delay_m2 =
     (case py_get start_m2 i of
        Inl e \<Rightarrow> Inl e
      | Inr s \<Rightarrow>
          (case py_get finish_m2 (i - 1) of
             Inl e \<Rightarrow> Inl e
           | Inr f \<Rightarrow>
               (let idle = s - f
                in delays_loop start_m2 finish_m2 rest
                     (if idle > 0 then delay_m2 + idle else delay_m2))))"

definition calculate_delays ::
    "rat list \<Rightarrow> rat list \<Rightarrow> rat list \<Rightarrow> rat list \<Rightarrow> rat \<Rightarrow> py_error + (rat \<times> rat)" where
  "calculate_delays start_m1 finish_m1 start_m2 finish_m2 makespan =
     (case py_last finish_m1 of
        Inl e \<Rightarrow> Inl e
      | Inr f1 \<Rightarrow>
          (let delay_m1 = makespan - f1
           in case py_get start_m2 0 of
                Inl e \<Rightarrow> Inl e
              | Inr s0 \<Rightarrow>
                  (case delays_loop start_m2 finish_m2 [1..<length start_m2] s0 of
                     Inl e \<Rightarrow> Inl e
                   | Inr delay_m2 \<Rightarrow> Inr (delay_m1, delay_m2))))"

definition py_div :: "rat \<Rightarrow> rat \<Rightarrow> py_error + rat" where
  "py_div a b = (if b = 0 then Inl ZeroDivisionError else Inr (a / b))"

text \<open>The result is \<open>(makespan, delay_m1, delay_m2, average_delay, utilization)\<close>.\<close>

type_synonym metrics = "rat \<times> rat \<times> rat \<times> rat \<times> rat"

definition calculate_metrics ::
    "rat list \<Rightarrow> rat list \<Rightarrow> rat list \<Rightarrow> rat list \<Rightarrow> py_error + metrics" where
  "calculate_metrics finish_m1 finish_m2 start_m1 start_m2 =
     (case py_last finish_m2 of
        Inl e \<Rightarrow> Inl e
      | Inr makespan \<Rightarrow>
          (case calculate_delays start_m1 finish_m1 start_m2 finish_m2 makespan of
             Inl e \<Rightarrow> Inl e
           | Inr (delay_m1, delay_m2) \<Rightarrow>
               (case py_div delay_m1 makespan of
                  Inl e \<Rightarrow> Inl e
                | Inr q1 \<Rightarrow>
                    (case py_div delay_m2 makespan of
                       Inl e \<Rightarrow> Inl e
                     | Inr q2 \<Rightarrow>
                         (let average_delay = (q1 + q2) / 2;
                              utilization = 1 - average_delay
                          in Inr (makespan, delay_m1, delay_m2, average_delay, utilization))))))"

subsection \<open>The handler of the Calculate button\<close>

text \<open>
  What the handler puts on the page: either the one \<open>st.error\<close> message, or the results
  (the sequence, the five metrics and the four timing arrays, which the chart draws).
  An exception of the computation leaves the handler as it is raised.
\<close>

datatype display = StError string | Results "nat list" metrics timing

definition any_negative :: "times list \<Rightarrow> bool" where
  "any_negative processing_times = list_ex (\<lambda>(p1, p2). p1 < 0 \<or> p2 < 0) processing_times"

definition pipeline :: "times list \<Rightarrow> py_error + (nat list \<times> timing \<times> metrics)" where
  "pipeline processing_times =
     (case johnsons_rule processing_times of
        Inl e \<Rightarrow> Inl e
      | Inr sequence \<Rightarrow>
          (case calculate_schedule processing_times sequence of
             Inl e \<Rightarrow> Inl e
           | Inr (start_m1, finish_m1, start_m2, finish_m2) \<Rightarrow>
               (case calculate_metrics finish_m1 finish_m2 start_m1 start_m2 of
                  Inl e \<Rightarrow> Inl e
                | Inr m \<Rightarrow> Inr (sequence, (start_m1, finish_m1, start_m2, finish_m2), m))))"

definition on_calculate :: "times list \<Rightarrow> py_error + display" where
  "on_calculate processing_times =
     (if any_negative processing_times
      then Inr (StError ''Processing times must be non-negative!'')
      else case pipeline processing_times of
             Inl e \<Rightarrow> Inl e
           | Inr (sequence, arrays, m) \<Rightarrow> Inr (Results sequence m arrays))"

subsection \<open>The default table of the page\<close>

definition default_p1 :: "rat list" where
  "default_p1 = [3, 6, 2, 7, 6, 5, 5, 3, 6, 10]"

definition default_p2 :: "rat list" where
  "default_p2 = [5, 2, 8, 6, 6, 9, 4, 2, 8, 4]"

definition default_times :: "times list" where
  "default_times = zip default_p1 default_p2"

subsection \<open>Predicates used in the statements\<close>

text \<open>
  \<open>in_range\<close>: every entry of the sequence is an index of the processing-time list, which
  holds of every permutation of its indices. \<open>schedule_inv\<close>: the four arrays have the
  length of the sequence and their first \<open>k\<close> positions obey the recurrences of the loop
  body.
\<close>

definition in_range :: "times list \<Rightarrow> nat list \<Rightarrow> bool" where
  "in_range pts seq = list_all (\<lambda>idx. idx < length pts) seq"

definition schedule_inv :: "times list \<Rightarrow> nat list \<Rightarrow> nat \<Rightarrow> timing \<Rightarrow> bool" where
  "schedule_inv pts seq k arrays =
     (case arrays of (s1, f1, s2, f2) \<Rightarrow>
        length s1 = length seq \<and> length f1 = length seq \<and>
        length s2 = length seq \<and> length f2 = length seq \<and>
        (\<forall>i < k.
           s1 ! i = (if 0 < i then f1 ! (i - 1) else 0) \<and>
           f1 ! i = s1 ! i + fst (pts ! (seq ! i)) \<and>
           s2 ! i = max (if 0 < i then f2 ! (i - 1) else 0) (f1 ! i) \<and>
           f2 ! i = s2 ! i + snd (pts ! (seq ! i))))"

text \<open>\<open>all_zero\<close>: every processing time of the list is zero.\<close>

definition all_zero :: "times list \<Rightarrow> bool" where
  "all_zero processing_times = list_all (\<lambda>(p1, p2). p1 = 0 \<and> p2 = 0) processing_times"

section \<open>Properties of the Sequencer\<close>

lemma min_scan_mem: "min_scan key best xs \<in> set (best # xs)"
  by (induction xs arbitrary: best) auto

lemma min_scan_le_best: "key (min_scan key best xs) \<le> key best"
proof (induction xs arbitrary: best)
  case Nil
  show ?case by simp
next
  case (Cons x xs)
  have "key (min_scan key (if key x < key best then x else best) xs)
          \<le> key (if key x < key best then x else best)"
    by (rule Cons.IH)
  also have "\<dots> \<le> key best" by simp
  finally show ?case by simp
qed

lemma min_scan_le: "x \<in> set (best # xs) \<Longrightarrow> key (min_scan key best xs) \<le> key x"
proof (induction xs arbitrary: best)
  case Nil
  then show ?case by simp
next
  case (Cons y ys)
  let ?b = "if key y < key best then y else best"
  have le_b: "key (min_scan key ?b ys) \<le> key ?b" by (rule min_scan_le_best)
  from Cons.prems consider "x = best" | "x = y" | "x \<in> set ys" by auto
  then show ?case
  proof cases
    case 1
    with le_b show ?thesis by (auto split: if_splits)
  next
    case 2
    with le_b show ?thesis by (auto split: if_splits)
  next
    case 3
    then have "x \<in> set (?b # ys)" by simp
    from Cons.IH [OF this] show ?thesis by simp
  qed
qed

text \<open>The selected item sits at the first position whose key is minimal.\<close>

lemma min_scan_first:
  "\<exists>k < length (best # xs). (best # xs) ! k = min_scan key best xs
      \<and> (\<forall>j < k. key (min_scan key best xs) < key ((best # xs) ! j))"
proof (induction xs arbitrary: best)
  case Nil
  show ?case by simp
next
  case (Cons y ys)
  let ?b = "if key y < key best then y else best"
  let ?m = "min_scan key ?b ys"
  from Cons.IH [of ?b] obtain k where k: "k < length (?b # ys)" "(?b # ys) ! k = ?m"
    "\<forall>j < k. key ?m < key ((?b # ys) ! j)" by blast
  have m: "min_scan key best (y # ys) = ?m" by simp
  show ?case
  proof (cases k)
    case 0
    then have mb: "?m = ?b" using k(2) by simp
    show ?thesis
    proof (cases "key y < key best")
      case True
      then have my: "?m = y" using mb by simp
      have "(best # y # ys) ! 1 = ?m" using my by simp
      moreover have "\<forall>j < (1::nat). key ?m < key ((best # y # ys) ! j)"
        using True my by simp
      ultimately show ?thesis unfolding m by (intro exI [of _ 1]) simp
    next
      case False
      then have "?m = best" using mb by simp
      then show ?thesis unfolding m by (intro exI [of _ 0]) simp
    qed
  next
    case (Suc k')
    then have k0: "key ?m < key ?b" using k(3) by auto
    have "key ?b \<le> key best" "key ?b \<le> key y" by auto
    with k0 have lt: "key ?m < key best" "key ?m < key y" by auto
    have nth: "(best # y # ys) ! Suc k = ?m" using k(2) Suc by simp
    have "\<forall>j < Suc k. key ?m < key ((best # y # ys) ! j)"
    proof (intro allI impI)
      fix j assume j: "j < Suc k"
      show "key ?m < key ((best # y # ys) ! j)"
      proof (cases j)
        case 0
        then show ?thesis using lt by simp
      next
        case (Suc j')
        show ?thesis
        proof (cases j')
          case 0
          then show ?thesis using lt Suc by simp
        next
          case (Suc j'')
          then have "j' < k" using j \<open>j = Suc j'\<close> by simp
          with k(3) have "key ?m < key ((?b # ys) ! j')" by blast
          then show ?thesis using Suc \<open>j = Suc j'\<close> by simp
        qed
      qed
    qed
    with nth k(1) show ?thesis unfolding m by (intro exI [of _ "Suc k"]) simp
  qed
qed

lemma remove1_first_nth:
  "k < length xs \<Longrightarrow> \<forall>j < k. xs ! j \<noteq> xs ! k \<Longrightarrow> remove1 (xs ! k) xs = take k xs @ drop (Suc k) xs"
proof (induction xs arbitrary: k)
  case Nil
  then show ?case by simp
next
  case (Cons x xs)
  show ?case
  proof (cases k)
    case 0
    then show ?thesis by simp
  next
    case (Suc k')
    from Cons.prems(2) Suc have ne: "x \<noteq> xs ! k'" by (metis nth_Cons_0 nth_Cons_Suc zero_less_Suc)
    have "k' < length xs" using Cons.prems(1) Suc by simp
    moreover have "\<forall>j < k'. xs ! j \<noteq> xs ! k'"
      using Cons.prems(2) Suc by (metis Suc_less_eq nth_Cons_Suc)
    ultimately have "remove1 (xs ! k') xs = take k' xs @ drop (Suc k') xs" by (rule Cons.IH)
    with ne Suc show ?thesis by simp
  qed
qed

lemma johnsons_loop_unfold:
  assumes "tasks \<noteq> []"
  shows "\<exists>k idx p1 p2. k < length tasks \<and> tasks ! k = (idx, (p1, p2))
     \<and> (\<forall>j < length tasks. min p1 p2 \<le> task_key (tasks ! j))
     \<and> (\<forall>j < k. min p1 p2 < task_key (tasks ! j))
     \<and> johnsons_loop tasks left right =
         johnsons_loop (take k tasks @ drop (Suc k) tasks)
           (if p1 \<le> p2 then left @ [idx] else left)
           (if p1 \<le> p2 then right else idx # right)"
proof -
  from assms obtain t ts where tasks: "tasks = t # ts" by (cases tasks) auto
  let ?m = "min_scan task_key t ts"
  obtain idx p1 p2 where m: "?m = (idx, (p1, p2))" by (cases ?m) auto
  from min_scan_first [of t ts task_key] obtain k where k: "k < length tasks"
    "tasks ! k = ?m" "\<forall>j < k. task_key ?m < task_key (tasks ! j)"
    unfolding tasks by blast
  have key: "task_key ?m = min p1 p2" using m by simp
  have le: "\<forall>j < length tasks. min p1 p2 \<le> task_key (tasks ! j)"
    using min_scan_le [of _ t ts task_key] key unfolding tasks
    by (metis nth_mem)
  have "\<forall>j < k. tasks ! j \<noteq> tasks ! k" using k(2,3) by auto
  with k(1) have rem: "remove1 (tasks ! k) tasks = take k tasks @ drop (Suc k) tasks"
    by (rule remove1_first_nth)
  have mem: "(idx, (p1, p2)) \<in> set tasks" using k(1,2) m by (metis nth_mem)
  have pm: "py_min task_key tasks = Inr (idx, (p1, p2))"
    using m by (simp add: py_min_def tasks)
  have pr: "py_remove (idx, (p1, p2)) tasks = Inr (take k tasks @ drop (Suc k) tasks)"
    using mem rem k(2) m by (simp add: py_remove_def)
  have "johnsons_loop tasks left right =
         johnsons_loop (take k tasks @ drop (Suc k) tasks)
           (if p1 \<le> p2 then left @ [idx] else left)
           (if p1 \<le> p2 then right else idx # right)"
    using assms pm pr by (subst johnsons_loop.simps) simp
  with k le key m show ?thesis by (intro exI [of _ k] exI [of _ idx] exI [of _ p1] exI [of _ p2]) simp
qed

lemma johnsons_loop_mset:
  "\<exists>l r. johnsons_loop tasks left right = Inr (l, r)
     \<and> mset (l @ r) = mset (map fst tasks) + mset left + mset right"
proof (induction "length tasks" arbitrary: tasks left right)
  case 0
  then show ?case by (simp add: johnsons_loop.simps)
next
  case (Suc n)
  then have ne: "tasks \<noteq> []" by auto
  from johnsons_loop_unfold [OF ne, of left right] obtain k idx p1 p2 where
    k: "k < length tasks" "tasks ! k = (idx, (p1, p2))" and
    step: "johnsons_loop tasks left right =
         johnsons_loop (take k tasks @ drop (Suc k) tasks)
           (if p1 \<le> p2 then left @ [idx] else left)
           (if p1 \<le> p2 then right else idx # right)" by blast
  let ?rest = "take k tasks @ drop (Suc k) tasks"
  have len: "n = length ?rest" using Suc.hyps(2) k(1) by simp
  have "tasks = take k tasks @ tasks ! k # drop (Suc k) tasks"
    using k(1) by (simp add: id_take_nth_drop)
  then have "mset (map fst tasks) = mset (map fst (take k tasks @ tasks ! k # drop (Suc k) tasks))"
    by simp
  then have ms: "mset (map fst tasks) = mset (map fst ?rest) + {#idx#}"
    using k(2) by simp
  from Suc.hyps(1) [OF len] obtain l r where
    "johnsons_loop ?rest (if p1 \<le> p2 then left @ [idx] else left)
           (if p1 \<le> p2 then right else idx # right) = Inr (l, r)"
    "mset (l @ r) = mset (map fst ?rest) + mset (if p1 \<le> p2 then left @ [idx] else left)
       + mset (if p1 \<le> p2 then right else idx # right)" by blast
  with step ms show ?case by (intro exI [of _ l] exI [of _ r]) (simp split: if_splits)
qed

lemma johnsons_rule_mset:
  "\<exists>seq. johnsons_rule pts = Inr seq \<and> mset seq = mset [0..<length pts]"
proof -
  from johnsons_loop_mset [of "py_enumerate pts" "[]" "[]"] obtain l r where
    lr: "johnsons_loop (py_enumerate pts) [] [] = Inr (l, r)"
    "mset (l @ r) = mset (map fst (py_enumerate pts))" by auto
  have "map fst (py_enumerate pts) = [0..<length pts]" by (simp add: py_enumerate_def)
  with lr show ?thesis by (simp add: johnsons_rule_def johnsons_lists_def)
qed

section \<open>Properties of the Schedule Simulator\<close>

text \<open>One pass of the loop body extends the invariant by one position.\<close>

lemma schedule_inv_step:
  assumes inv: "schedule_inv pts seq k (s1, f1, s2, f2)" and k: "k < length seq"
    and p: "pts ! (seq ! k) = (p1, p2)"
    and s1': "s1' = s1[k := (if k > 0 then f1 ! (k - 1) else 0)]"
    and f1': "f1' = f1[k := s1' ! k + p1]"
    and s2': "s2' = s2[k := max (if k > 0 then f2 ! (k - 1) else 0) (f1' ! k)]"
    and f2': "f2' = f2[k := s2' ! k + p2]"
  shows "schedule_inv pts seq (Suc k) (s1', f1', s2', f2')"
proof -
  from inv have len: "length s1 = length seq" "length f1 = length seq"
      "length s2 = length seq" "length f2 = length seq"
    unfolding schedule_inv_def prod.case by blast+
  from inv have "\<forall>i < k.
           s1 ! i = (if 0 < i then f1 ! (i - 1) else 0) \<and>
           f1 ! i = s1 ! i + fst (pts ! (seq ! i)) \<and>
           s2 ! i = max (if 0 < i then f2 ! (i - 1) else 0) (f1 ! i) \<and>
           f2 ! i = s2 ! i + snd (pts ! (seq ! i))"
    unfolding schedule_inv_def prod.case by blast
  then have old: "s1 ! i = (if 0 < i then f1 ! (i - 1) else 0) \<and>
           f1 ! i = s1 ! i + fst (pts ! (seq ! i)) \<and>
           s2 ! i = max (if 0 < i then f2 ! (i - 1) else 0) (f1 ! i) \<and>
           f2 ! i = s2 ! i + snd (pts ! (seq ! i))" if "i < k" for i
    using that by blast
  have len': "length s1' = length seq" "length f1' = length seq"
      "length s2' = length seq" "length f2' = length seq"
    using len by (simp_all add: s1' f1' s2' f2')
  have at_k: "s1' ! k = (if 0 < k then f1' ! (k - 1) else 0)"
      "f1' ! k = s1' ! k + fst (pts ! (seq ! k))"
      "s2' ! k = max (if 0 < k then f2' ! (k - 1) else 0) (f1' ! k)"
      "f2' ! k = s2' ! k + snd (pts ! (seq ! k))"
    using len k p by (simp_all add: s1' f1' s2' f2')
  have below: "s1' ! i = s1 ! i" "f1' ! i = f1 ! i" "s2' ! i = s2 ! i" "f2' ! i = f2 ! i"
    if "i < k" for i
    using that by (simp_all add: s1' f1' s2' f2')
  have "\<forall>i < Suc k.
        s1' ! i = (if 0 < i then f1' ! (i - 1) else 0) \<and>
        f1' ! i = s1' ! i + fst (pts ! (seq ! i)) \<and>
        s2' ! i = max (if 0 < i then f2' ! (i - 1) else 0) (f1' ! i) \<and>
        f2' ! i = s2' ! i + snd (pts ! (seq ! i))"
  proof (intro allI impI)
    fix i assume i: "i < Suc k"
    show "s1' ! i = (if 0 < i then f1' ! (i - 1) else 0) \<and>
        f1' ! i = s1' ! i + fst (pts ! (seq ! i)) \<and>
        s2' ! i = max (if 0 < i then f2' ! (i - 1) else 0) (f1' ! i) \<and>
        f2' ! i = s2' ! i + snd (pts ! (seq ! i))"
    proof (cases "i = k")
      case True
      with at_k show ?thesis by (simp only:)
    next
      case False
      with i have ik: "i < k" by simp
      then have "i - 1 < k" by simp
      then have prev: "f1' ! (i - 1) = f1 ! (i - 1)" "f2' ! (i - 1) = f2 ! (i - 1)"
        by (rule below)+
      from old [OF ik] show ?thesis by (simp only: below [OF ik] prev)
    qed
  qed
  with len' show ?thesis unfolding schedule_inv_def prod.case by blast
qed

lemma schedule_loop_inv:
  assumes "in_range pts seq"
  shows "k \<le> length seq \<Longrightarrow> schedule_inv pts seq k st \<Longrightarrow>
    \<exists>st'. schedule_loop pts (zip [k..<length seq] (drop k seq)) st = Inr st'
       \<and> schedule_inv pts seq (length seq) st'"
proof (induction "length seq - k" arbitrary: k st)
  case 0
  then have "k = length seq" by simp
  with 0 show ?case by simp
next
  case (Suc d)
  then have k: "k < length seq" by simp
  obtain s1 f1 s2 f2 where st: "st = (s1, f1, s2, f2)" by (cases st) auto
  obtain p1 p2 where p: "pts ! (seq ! k) = (p1, p2)" by (cases "pts ! (seq ! k)") auto
  have "seq ! k < length pts" using assms k by (simp add: in_range_def list_all_length)
  then have get: "py_get pts (seq ! k) = Inr (p1, p2)" using p by (simp add: py_get_def)
  have unroll: "zip [k..<length seq] (drop k seq)
      = (k, seq ! k) # zip [Suc k..<length seq] (drop (Suc k) seq)"
    using k by (simp add: upt_conv_Cons Cons_nth_drop_Suc [symmetric])
  define s1' where "s1' = s1[k := (if k > 0 then f1 ! (k - 1) else 0)]"
  define f1' where "f1' = f1[k := s1' ! k + p1]"
  define s2' where "s2' = s2[k := max (if k > 0 then f2 ! (k - 1) else 0) (f1' ! k)]"
  define f2' where "f2' = f2[k := s2' ! k + p2]"
  have step: "schedule_loop pts (zip [k..<length seq] (drop k seq)) st
      = schedule_loop pts (zip [Suc k..<length seq] (drop (Suc k) seq)) (s1', f1', s2', f2')"
    unfolding unroll st by (simp add: get Let_def s1'_def f1'_def s2'_def f2'_def)
  have inv': "schedule_inv pts seq (Suc k) (s1', f1', s2', f2')"
    using Suc.prems(2) k p s1'_def f1'_def s2'_def f2'_def unfolding st
    by (rule schedule_inv_step)
  have "d = length seq - Suc k" using Suc.hyps(2) by simp
  moreover have "Suc k \<le> length seq" using k by simp
  ultimately show ?case using inv' unfolding step by (rule Suc.hyps(1))
qed

lemma calculate_schedule_inv:
  assumes "in_range pts seq"
  shows "\<exists>s1 f1 s2 f2. calculate_schedule pts seq = Inr (s1, f1, s2, f2)
     \<and> schedule_inv pts seq (length seq) (s1, f1, s2, f2)"
proof -
  let ?z = "replicate (length seq) (0::rat)"
  have "schedule_inv pts seq 0 (?z, ?z, ?z, ?z)" by (simp add: schedule_inv_def)
  with schedule_loop_inv [OF assms, of 0 "(?z, ?z, ?z, ?z)"]
  obtain st' where "schedule_loop pts (zip [0..<length seq] seq) (?z, ?z, ?z, ?z) = Inr st'"
    "schedule_inv pts seq (length seq) st'" by auto
  then show ?thesis
    by (cases st') (auto simp: calculate_schedule_def py_enumerate_def Let_def)
qed

lemma perm_in_range:
  assumes "mset seq = mset [0..<length pts]"
  shows "in_range pts seq"
proof -
  from assms have "set seq = set [0..<length pts]" by (rule mset_eq_setD)
  then show ?thesis by (simp add: in_range_def list_all_iff)
qed

lemma nonneg_nth:
  assumes "\<not> any_negative pts" and "idx < length pts"
  shows "0 \<le> fst (pts ! idx) \<and> 0 \<le> snd (pts ! idx)"
proof -
  from assms(2) have "pts ! idx \<in> set pts" by (rule nth_mem)
  with assms(1) show ?thesis
    unfolding any_negative_def list_ex_iff by (cases "pts ! idx") auto
qed

text \<open>What the recurrences give at one position.\<close>

lemma schedule_inv_at:
  assumes "schedule_inv pts seq (length seq) (s1, f1, s2, f2)" and "i < length seq"
  shows "s1 ! i = (if 0 < i then f1 ! (i - 1) else 0)"
    and "f1 ! i = s1 ! i + fst (pts ! (seq ! i))"
    and "s2 ! i = max (if 0 < i then f2 ! (i - 1) else 0) (f1 ! i)"
    and "f2 ! i = s2 ! i + snd (pts ! (seq ! i))"
  using assms unfolding schedule_inv_def prod.case by blast+

lemma schedule_inv_length:
  assumes "schedule_inv pts seq k (s1, f1, s2, f2)"
  shows "length s1 = length seq" "length f1 = length seq"
    "length s2 = length seq" "length f2 = length seq"
  using assms unfolding schedule_inv_def prod.case by blast+

lemma schedule_times_nonneg:
  assumes "in_range pts seq" and "\<not> any_negative pts" and "i < length seq"
  shows "0 \<le> fst (pts ! (seq ! i))" and "0 \<le> snd (pts ! (seq ! i))"
proof -
  from assms(1,3) have "seq ! i < length pts" by (simp add: in_range_def list_all_length)
  with assms(2) show "0 \<le> fst (pts ! (seq ! i))" and "0 \<le> snd (pts ! (seq ! i))"
    using nonneg_nth by blast+
qed

lemma schedule_f1_nonneg:
  assumes inv: "schedule_inv pts seq (length seq) (s1, f1, s2, f2)"
    and rng: "in_range pts seq" and nn: "\<not> any_negative pts"
  shows "i < length seq \<Longrightarrow> 0 \<le> s1 ! i \<and> 0 \<le> f1 ! i"
proof (induction i)
  case 0
  from schedule_inv_at(1,2) [OF inv 0] schedule_times_nonneg(1) [OF rng nn 0]
  show ?case by simp
next
  case (Suc i)
  then have "0 \<le> f1 ! i" by simp
  moreover from schedule_inv_at(1) [OF inv Suc.prems] have "s1 ! Suc i = f1 ! i" by simp
  moreover note schedule_inv_at(2) [OF inv Suc.prems] schedule_times_nonneg(1) [OF rng nn Suc.prems]
  ultimately show ?case by simp
qed

lemma schedule_order:
  assumes inv: "schedule_inv pts seq (length seq) (s1, f1, s2, f2)"
    and rng: "in_range pts seq" and nn: "\<not> any_negative pts" and i: "i < length seq"
  shows "0 \<le> s1 ! i" and "s1 ! i \<le> f1 ! i" and "f1 ! i \<le> s2 ! i" and "s2 ! i \<le> f2 ! i"
    and "0 < i \<Longrightarrow> f2 ! (i - 1) \<le> s2 ! i"
proof -
  show "0 \<le> s1 ! i" using schedule_f1_nonneg [OF inv rng nn i] by simp
  show "s1 ! i \<le> f1 ! i"
    using schedule_inv_at(2) [OF inv i] schedule_times_nonneg(1) [OF rng nn i] by simp
  show "f1 ! i \<le> s2 ! i" using schedule_inv_at(3) [OF inv i] by simp
  show "s2 ! i \<le> f2 ! i"
    using schedule_inv_at(4) [OF inv i] schedule_times_nonneg(2) [OF rng nn i] by simp
  show "f2 ! (i - 1) \<le> s2 ! i" if "0 < i"
    using schedule_inv_at(3) [OF inv i] that by simp
qed

lemma schedule_f2_sorted:
  assumes inv: "schedule_inv pts seq (length seq) (s1, f1, s2, f2)"
    and rng: "in_range pts seq" and nn: "\<not> any_negative pts"
  shows "sorted f2"
proof -
  have len: "length f2 = length seq" using inv by (rule schedule_inv_length)
  have "f2 ! i \<le> f2 ! Suc i" if "Suc i < length f2" for i
  proof -
    from that len have i: "Suc i < length seq" by simp
    from schedule_order(5) [OF inv rng nn i] have "f2 ! i \<le> s2 ! Suc i" by simp
    also have "\<dots> \<le> f2 ! Suc i" using inv rng nn i by (rule schedule_order(4))
    finally show ?thesis .
  qed
  then show ?thesis by (simp add: sorted_iff_nth_Suc)
qed

lemma schedule_le_last:
  assumes inv: "schedule_inv pts seq (length seq) (s1, f1, s2, f2)"
    and rng: "in_range pts seq" and nn: "\<not> any_negative pts" and i: "i < length seq"
  shows "s1 ! i \<le> last f2" and "f1 ! i \<le> last f2" and "s2 ! i \<le> last f2"
    and "f2 ! i \<le> last f2"
proof -
  have len: "length f2 = length seq" using inv by (rule schedule_inv_length)
  with i have ne: "f2 \<noteq> []" by auto
  have "sorted f2" using inv rng nn by (rule schedule_f2_sorted)
  moreover have "i \<le> length f2 - 1" "length f2 - 1 < length f2" using i len by simp_all
  ultimately have "f2 ! i \<le> f2 ! (length f2 - 1)" by (rule sorted_nth_mono)
  then show 4: "f2 ! i \<le> last f2" using ne by (simp add: last_conv_nth)
  from schedule_order(4) [OF inv rng nn i] 4 show 3: "s2 ! i \<le> last f2" by simp
  from schedule_order(3) [OF inv rng nn i] 3 show 2: "f1 ! i \<le> last f2" by simp
  from schedule_order(2) [OF inv rng nn i] 2 show "s1 ! i \<le> last f2" by simp
qed

section \<open>Properties of the Metrics Calculator\<close>

text \<open>A makespan that is returned is the last entry of \<open>finish_m2\<close>.\<close>

lemma metrics_makespan:
  assumes "calculate_metrics f1 f2 s1 s2 = Inr (mk, d1, d2, avg, util)"
  shows "f2 \<noteq> [] \<and> mk = last f2"
  using assms
  by (auto simp: calculate_metrics_def py_last_def Let_def
      split: sum.splits if_splits prod.splits)

text \<open>The loop of \<open>calculate_delays\<close> adds up the gaps, negative ones counted as 0.\<close>

lemma delays_loop_sum:
  assumes "n \<le> length s2" and "n \<le> Suc (length f2)"
  shows "1 \<le> k \<Longrightarrow> delays_loop s2 f2 [k..<n] acc
           = Inr (acc + (\<Sum>i = k..<n. max 0 (s2 ! i - f2 ! (i - 1))))"
proof (induction "n - k" arbitrary: k acc)
  case 0
  then show ?case by simp
next
  case (Suc d)
  then have k: "k < n" by simp
  let ?idle = "s2 ! k - f2 ! (k - 1)"
  have g1: "py_get s2 k = Inr (s2 ! k)" using k assms(1) by (simp add: py_get_def)
  have "k - 1 < length f2" using k assms(2) Suc.prems by simp
  then have g2: "py_get f2 (k - 1) = Inr (f2 ! (k - 1))" by (simp add: py_get_def)
  have unroll: "[k..<n] = k # [Suc k..<n]" using k by (simp add: upt_conv_Cons)
  have step: "delays_loop s2 f2 [k..<n] acc
      = delays_loop s2 f2 [Suc k..<n] (if ?idle > 0 then acc + ?idle else acc)"
    unfolding unroll delays_loop.simps g1 g2 by (simp add: Let_def)
  have acc: "(if ?idle > 0 then acc + ?idle else acc) = acc + max 0 ?idle" by simp
  have d: "d = n - Suc k" using Suc.hyps(2) by simp
  have "delays_loop s2 f2 [Suc k..<n] (acc + max 0 ?idle)
      = Inr (acc + max 0 ?idle + (\<Sum>i = Suc k..<n. max 0 (s2 ! i - f2 ! (i - 1))))"
    using d by (rule Suc.hyps(1)) simp
  moreover have "(\<Sum>i = k..<n. max 0 (s2 ! i - f2 ! (i - 1)))
      = max 0 ?idle + (\<Sum>i = Suc k..<n. max 0 (s2 ! i - f2 ! (i - 1)))"
    using k by (rule sum.atLeast_Suc_lessThan)
  ultimately show ?case unfolding step acc by simp
qed

lemma calculate_delays_eq:
  assumes "length f1 = n" and "length f2 = n" and "length s2 = n" and "1 \<le> n"
  shows "calculate_delays s1 f1 s2 f2 mk
     = Inr (mk - f1 ! (n - 1), s2 ! 0 + (\<Sum>i = 1..<n. max 0 (s2 ! i - f2 ! (i - 1))))"
proof -
  have "f1 \<noteq> []" using assms(1,4) by auto
  then have l: "py_last f1 = Inr (f1 ! (n - 1))"
    using assms(1) by (simp add: py_last_def last_conv_nth)
  have g: "py_get s2 0 = Inr (s2 ! 0)" using assms(3,4) by (simp add: py_get_def)
  have "delays_loop s2 f2 [1..<n] (s2 ! 0)
      = Inr (s2 ! 0 + (\<Sum>i = 1..<n. max 0 (s2 ! i - f2 ! (i - 1))))"
    by (rule delays_loop_sum) (simp_all add: assms)
  then show ?thesis by (simp add: calculate_delays_def l g assms(3) Let_def)
qed

lemma calculate_metrics_eq:
  assumes "length f1 = n" and "length f2 = n" and "length s2 = n" and "1 \<le> n"
  shows "calculate_metrics f1 f2 s1 s2 =
     (let makespan = f2 ! (n - 1);
          delay_m1 = makespan - f1 ! (n - 1);
          delay_m2 = s2 ! 0 + (\<Sum>i = 1..<n. max 0 (s2 ! i - f2 ! (i - 1)));
          average_delay = (delay_m1 / makespan + delay_m2 / makespan) / 2
      in if makespan = 0 then Inl ZeroDivisionError
         else Inr (makespan, delay_m1, delay_m2, average_delay, 1 - average_delay))"
proof -
  have "f2 \<noteq> []" using assms(2,4) by auto
  then have l: "py_last f2 = Inr (f2 ! (n - 1))"
    using assms(2) by (simp add: py_last_def last_conv_nth)
  show ?thesis
    unfolding calculate_metrics_def l calculate_delays_eq [OF assms]
    by (simp add: py_div_def Let_def)
qed




section \<open>Properties of the whole computation\<close>

lemma zero_makespan_all_zero:
  assumes inv: "schedule_inv pts seq (length seq) (s1, f1, s2, f2)"
    and perm: "mset seq = mset [0..<length pts]" and nn: "\<not> any_negative pts"
    and ne: "seq \<noteq> []" and z: "last f2 = 0"
  shows "all_zero pts"
proof -
  have rng: "in_range pts seq" using perm by (rule perm_in_range)
  from perm have sets: "set seq = set [0..<length pts]" by (rule mset_eq_setD)
  have "fst (pts ! idx) = 0 \<and> snd (pts ! idx) = 0" if "idx < length pts" for idx
  proof -
    from that sets have "idx \<in> set seq" by simp
    then obtain i where i: "i < length seq" "seq ! i = idx" by (auto simp: in_set_conv_nth)
    note o = schedule_order(1-4) [OF inv rng nn i(1)]
    note l = schedule_le_last [OF inv rng nn i(1)]
    note a = schedule_inv_at(2,4) [OF inv i(1)]
    note t = schedule_times_nonneg [OF rng nn i(1)]
    from o l a t z have "fst (pts ! (seq ! i)) = 0" by linarith
    moreover from o l a t z have "snd (pts ! (seq ! i)) = 0" by linarith
    ultimately show ?thesis using i(2) by simp
  qed
  then have "\<forall>idx < length pts. (case pts ! idx of (p1, p2) \<Rightarrow> p1 = 0 \<and> p2 = 0)"
    by (simp add: case_prod_beta)
  then show ?thesis unfolding all_zero_def list_all_length .
qed

lemma all_zero_arrays:
  assumes inv: "schedule_inv pts seq (length seq) (s1, f1, s2, f2)"
    and rng: "in_range pts seq" and az: "all_zero pts"
  shows "i < length seq \<Longrightarrow> s1 ! i = 0 \<and> f1 ! i = 0 \<and> s2 ! i = 0 \<and> f2 ! i = 0"
proof (induction i)
  case 0
  from rng 0 have "seq ! 0 < length pts" by (simp add: in_range_def list_all_length)
  with az have p: "fst (pts ! (seq ! 0)) = 0" "snd (pts ! (seq ! 0)) = 0"
    by (simp_all add: all_zero_def list_all_length case_prod_beta)
  from schedule_inv_at [OF inv 0] p show ?case by simp
next
  case (Suc i)
  then have IH: "f1 ! i = 0" "f2 ! i = 0" by simp_all
  from rng Suc.prems have "seq ! Suc i < length pts" by (simp add: in_range_def list_all_length)
  with az have p: "fst (pts ! (seq ! Suc i)) = 0" "snd (pts ! (seq ! Suc i)) = 0"
    by (simp_all add: all_zero_def list_all_length case_prod_beta)
  from schedule_inv_at [OF inv Suc.prems] p IH show ?case by simp
qed

lemma all_zero_makespan:
  assumes inv: "schedule_inv pts seq (length seq) (s1, f1, s2, f2)"
    and rng: "in_range pts seq" and az: "all_zero pts" and ne: "seq \<noteq> []"
  shows "last f2 = 0"
proof -
  have len: "length f2 = length seq" using inv by (rule schedule_inv_length)
  with ne have "f2 \<noteq> []" by auto
  then have "last f2 = f2 ! (length seq - 1)" using len by (simp add: last_conv_nth)
  moreover have "length seq - 1 < length seq" using ne by (cases seq) simp_all
  ultimately show ?thesis using all_zero_arrays [OF inv rng az] by simp
qed

text \<open>The sequencer and the simulator composed: they return, and the arrays obey the
  recurrences.\<close>

lemma sequence_and_schedule:
  "\<exists>seq s1 f1 s2 f2. johnsons_rule pts = Inr seq \<and> mset seq = mset [0..<length pts]
     \<and> calculate_schedule pts seq = Inr (s1, f1, s2, f2)
     \<and> schedule_inv pts seq (length seq) (s1, f1, s2, f2)"
proof -
  from johnsons_rule_mset [of pts] obtain seq where
    seq: "johnsons_rule pts = Inr seq" "mset seq = mset [0..<length pts]" by blast
  from calculate_schedule_inv [OF perm_in_range [OF seq(2)]] seq show ?thesis by blast
qed

lemma pipeline_eq:
  assumes "johnsons_rule pts = Inr seq" and "calculate_schedule pts seq = Inr (s1, f1, s2, f2)"
  shows "pipeline pts = (case calculate_metrics f1 f2 s1 s2 of
           Inl e \<Rightarrow> Inl e | Inr m \<Rightarrow> Inr (seq, (s1, f1, s2, f2), m))"
  by (simp add: pipeline_def assms)

section \<open>The claims\<close>

text \<open>
  C1. The sequence returned by \<open>johnsons_rule\<close> is a permutation of the input indices:
  its length is the task count and every index \<open>0..n-1\<close> occurs exactly once (the same
  multiset as \<open>[0..<n]\<close>, hence no duplicate and no omission). The function returns on every
  input, and the property needs no assumption on the sign of the processing times.
\<close>

theorem johnsons_rule_permutation:
  "\<exists>seq. johnsons_rule pts = Inr seq \<and> length seq = length pts
     \<and> mset seq = mset [0..<length pts] \<and> distinct seq \<and> set seq = {0..<length pts}"
proof -
  from johnsons_rule_mset [of pts] obtain seq where
    seq: "johnsons_rule pts = Inr seq" "mset seq = mset [0..<length pts]" by blast
  from seq(2) have "length seq = length [0..<length pts]" by (rule mset_eq_length)
  moreover from seq(2) have "distinct seq = distinct [0..<length pts]"
    by (rule mset_eq_imp_distinct_iff)
  moreover from seq(2) have "set seq = set [0..<length pts]" by (rule mset_eq_setD)
  ultimately show ?thesis using seq by simp
qed

theorem johnsons_rule_permutation_witness:
  "\<not> any_negative [(4, 2), (1, 3), (1, 1)] \<and>
   johnsons_rule [(4, 2), (1, 3), (1, 1)] = Inr [1, 2, 0] \<and>
   mset [1, 2, 0] = mset [0..<length [(4 :: rat, 2 :: rat), (1, 3), (1, 1)]]"
proof -
  have "johnsons_rule [(4, 2), (1, 3), (1, 1)] = Inr [1, 2, 0]" by code_simp
  moreover have "\<not> any_negative [(4, 2), (1, 3), (1, 1)]" by code_simp
  ultimately show ?thesis
    using johnsons_rule_permutation [of "[(4, 2), (1, 3), (1, 1)]"] by auto
qed

text \<open>
  C2. For every sequence that is a permutation of the indices of the processing-time list,
  \<open>calculate_schedule\<close> returns four arrays of the length of the sequence with, at every
  position \<open>i\<close>: \<open>start_m1[i]\<close> is 0 for \<open>i = 0\<close> and \<open>finish_m1[i-1]\<close> otherwise;
  \<open>start_m2[i]\<close> is the larger of \<open>finish_m2[i-1]\<close> (0 for \<open>i = 0\<close>) and \<open>finish_m1[i]\<close>;
  and each finish is the start plus the processing time of task \<open>sequence[i]\<close> on that
  machine. The sign of the processing times plays no role here.
\<close>

theorem calculate_schedule_recurrences:
  assumes "mset sequence = mset [0..<length processing_times]"
  shows "\<exists>start_m1 finish_m1 start_m2 finish_m2.
     calculate_schedule processing_times sequence
       = Inr (start_m1, finish_m1, start_m2, finish_m2)
     \<and> length start_m1 = length sequence \<and> length finish_m1 = length sequence
     \<and> length start_m2 = length sequence \<and> length finish_m2 = length sequence
     \<and> (\<forall>i < length sequence.
          start_m1 ! i = (if 0 < i then finish_m1 ! (i - 1) else 0)
        \<and> start_m2 ! i = max (if 0 < i then finish_m2 ! (i - 1) else 0) (finish_m1 ! i)
        \<and> finish_m1 ! i = start_m1 ! i + fst (processing_times ! (sequence ! i))
        \<and> finish_m2 ! i = start_m2 ! i + snd (processing_times ! (sequence ! i)))"
proof -
  from assms have "in_range processing_times sequence" by (rule perm_in_range)
  then obtain s1 f1 s2 f2 where
    run: "calculate_schedule processing_times sequence = Inr (s1, f1, s2, f2)" and
    inv: "schedule_inv processing_times sequence (length sequence) (s1, f1, s2, f2)"
    using calculate_schedule_inv by blast
  note len = schedule_inv_length [OF inv]
  have "\<forall>i < length sequence.
          s1 ! i = (if 0 < i then f1 ! (i - 1) else 0)
        \<and> s2 ! i = max (if 0 < i then f2 ! (i - 1) else 0) (f1 ! i)
        \<and> f1 ! i = s1 ! i + fst (processing_times ! (sequence ! i))
        \<and> f2 ! i = s2 ! i + snd (processing_times ! (sequence ! i))"
    using schedule_inv_at [OF inv] by blast
  with run len show ?thesis by blast
qed

theorem calculate_schedule_recurrences_witness:
  "mset [1, 0] = mset [0..<length [(4 :: rat, 2 :: rat), (1, 3)]]
   \<and> (\<exists>start_m1 finish_m1 start_m2 finish_m2.
     calculate_schedule [(4, 2), (1, 3)] [1, 0]
       = Inr (start_m1, finish_m1, start_m2, finish_m2)
     \<and> length start_m1 = length [1 :: nat, 0] \<and> length finish_m1 = length [1 :: nat, 0]
     \<and> length start_m2 = length [1 :: nat, 0] \<and> length finish_m2 = length [1 :: nat, 0]
     \<and> (\<forall>i < length [1 :: nat, 0].
          start_m1 ! i = (if 0 < i then finish_m1 ! (i - 1) else 0)
        \<and> start_m2 ! i = max (if 0 < i then finish_m2 ! (i - 1) else 0) (finish_m1 ! i)
        \<and> finish_m1 ! i = start_m1 ! i + fst ([(4 :: rat, 2 :: rat), (1, 3)] ! ([1, 0] ! i))
        \<and> finish_m2 ! i = start_m2 ! i + snd ([(4 :: rat, 2 :: rat), (1, 3)] ! ([1, 0] ! i))))"
proof -
  have h: "mset [1, 0] = mset [0..<length [(4 :: rat, 2 :: rat), (1, 3)]]" by code_simp
  from calculate_schedule_recurrences [OF h] h show ?thesis by blast
qed

text \<open>
  C3. On four arrays of common length \<open>n \<ge> 1\<close> whose last \<open>finish_m2\<close> entry is not zero,
  \<open>calculate_metrics\<close> returns the makespan \<open>finish_m2[n-1]\<close>, \<open>delay_m1\<close> as the makespan
  minus \<open>finish_m1[n-1]\<close>, \<open>delay_m2\<close> as \<open>start_m2[0]\<close> plus the sum over \<open>i = 1..n-1\<close> of
  the gaps \<open>start_m2[i] - finish_m2[i-1]\<close> with negative gaps counted as 0, the average of
  the two delays divided by the makespan, and one minus that average.
\<close>

theorem calculate_metrics_formulas:
  assumes "length finish_m1 = n" and "length finish_m2 = n"
    and "length start_m1 = n" and "length start_m2 = n"
    and "1 \<le> n" and "finish_m2 ! (n - 1) \<noteq> 0"
  shows "calculate_metrics finish_m1 finish_m2 start_m1 start_m2 =
     (let makespan = finish_m2 ! (n - 1);
          delay_m1 = makespan - finish_m1 ! (n - 1);
          delay_m2 = start_m2 ! 0
            + (\<Sum>i = 1..<n. max 0 (start_m2 ! i - finish_m2 ! (i - 1)));
          average_delay = (delay_m1 / makespan + delay_m2 / makespan) / 2;
          utilization = 1 - average_delay
      in Inr (makespan, delay_m1, delay_m2, average_delay, utilization))"
  using assms(6) unfolding calculate_metrics_eq [OF assms(1,2,4,5)] by (simp add: Let_def)

theorem calculate_metrics_formulas_witness:
  "length [1 :: rat, 5] = 2 \<and> length [4 :: rat, 7] = 2 \<and> length [0 :: rat, 1] = 2
   \<and> length [1 :: rat, 3] = 2 \<and> (1 :: nat) \<le> 2 \<and> [4 :: rat, 7] ! (2 - 1) \<noteq> 0
   \<and> calculate_metrics [1, 5] [4, 7] [0, 1] [1, 3] = Inr (7, 2, 1, 3 / 14, 11 / 14)"
proof -
  have h: "length [1 :: rat, 5] = 2" "length [4 :: rat, 7] = 2" "length [0 :: rat, 1] = 2"
    "length [1 :: rat, 3] = 2" "(1 :: nat) \<le> 2" "[4 :: rat, 7] ! (2 - 1) \<noteq> 0"
    by simp_all
  have s: "(\<Sum>i = 1..<(2::nat). max 0 ([1 :: rat, 3] ! i - [4, 7] ! (i - 1))) = 0"
    by (simp add: numeral_2_eq_2)
  from calculate_metrics_formulas [OF h] h s show ?thesis by (simp add: Let_def)
qed





text \<open>
  C6. When some row has a negative processing time on either machine, the handler puts the
  one message of \<open>st.error\<close> on the page and nothing else: no sequence, timing arrays or
  metrics are computed or shown.
\<close>

theorem negative_input_rejected:
  assumes "(p1, p2) \<in> set processing_times" and "p1 < 0 \<or> p2 < 0"
  shows "on_calculate processing_times = Inr (StError ''Processing times must be non-negative!'')"
proof -
  from assms have "any_negative processing_times"
    unfolding any_negative_def list_ex_iff by blast
  then show ?thesis by (simp add: on_calculate_def)
qed

theorem negative_input_rejected_witness:
  "((3 :: rat), (- 1 :: rat)) \<in> set [(1, 2), (3, - 1), (- 4, 0)]
   \<and> ((3 :: rat) < 0 \<or> (- 1 :: rat) < 0)
   \<and> on_calculate [(1, 2), (3, - 1), (- 4, 0)]
        = Inr (StError ''Processing times must be non-negative!'')"
proof -
  have a: "((3 :: rat), (- 1 :: rat)) \<in> set [(1, 2), (3, - 1), (- 4, 0)]" by simp
  have b: "(3 :: rat) < 0 \<or> (- 1 :: rat) < 0" by simp
  from negative_input_rejected [OF a b] a b show ?thesis by blast
qed

text \<open>
  C7. When the last entry of \<open>finish_m2\<close> is zero, \<open>calculate_metrics\<close> (on arrays of
  common length \<open>n \<ge> 1\<close>) raises \<open>ZeroDivisionError\<close> and returns no number. On a non-empty
  list of non-negative processing times the simulated makespan is zero exactly when every
  processing time is zero, and the whole computation then ends in that error.
\<close>

theorem zero_makespan_fails:
  "(length finish_m1 = n \<and> length finish_m2 = n \<and> length start_m1 = n
      \<and> length start_m2 = n \<and> 1 \<le> n \<and> finish_m2 ! (n - 1) = 0
     \<longrightarrow> calculate_metrics finish_m1 finish_m2 start_m1 start_m2 = Inl ZeroDivisionError)
   \<and> (processing_times \<noteq> [] \<and> \<not> any_negative processing_times
     \<longrightarrow> (\<exists>sequence s1 f1 s2 f2.
            johnsons_rule processing_times = Inr sequence
          \<and> calculate_schedule processing_times sequence = Inr (s1, f1, s2, f2)
          \<and> (last f2 = 0) = all_zero processing_times
          \<and> (last f2 = 0 \<longrightarrow> pipeline processing_times = Inl ZeroDivisionError)))"
proof (intro conjI impI)
  assume h: "length finish_m1 = n \<and> length finish_m2 = n \<and> length start_m1 = n
      \<and> length start_m2 = n \<and> 1 \<le> n \<and> finish_m2 ! (n - 1) = 0"
  then have len: "length finish_m1 = n" "length finish_m2 = n" "length start_m2 = n" "1 \<le> n"
    and z: "finish_m2 ! (n - 1) = 0" by simp_all
  show "calculate_metrics finish_m1 finish_m2 start_m1 start_m2 = Inl ZeroDivisionError"
    unfolding calculate_metrics_eq [OF len] using z by (simp add: Let_def)
next
  assume h: "processing_times \<noteq> [] \<and> \<not> any_negative processing_times"
  then have nonempty: "processing_times \<noteq> []" and nn: "\<not> any_negative processing_times"
    by simp_all
  from sequence_and_schedule [of processing_times] obtain seq s1 f1 s2 f2 where
    seq: "johnsons_rule processing_times = Inr seq" and
    perm: "mset seq = mset [0..<length processing_times]" and
    run: "calculate_schedule processing_times seq = Inr (s1, f1, s2, f2)" and
    inv: "schedule_inv processing_times seq (length seq) (s1, f1, s2, f2)" by blast
  have rng: "in_range processing_times seq" using perm by (rule perm_in_range)
  from perm have "length seq = length [0..<length processing_times]" by (rule mset_eq_length)
  with nonempty have ne: "seq \<noteq> []" by auto
  then have n: "1 \<le> length seq" by (cases seq) simp_all
  note len = schedule_inv_length(2-4) [OF inv]
  have "f2 \<noteq> []" using len(3) ne by auto
  then have last_nth: "last f2 = f2 ! (length seq - 1)" using len(3) by (simp add: last_conv_nth)
  have iff: "(last f2 = 0) = all_zero processing_times"
    using zero_makespan_all_zero [OF inv perm nn ne] all_zero_makespan [OF inv rng _ ne]
    by blast
  have "pipeline processing_times = Inl ZeroDivisionError" if "last f2 = 0"
    unfolding pipeline_eq [OF seq run] calculate_metrics_eq [OF len(1) len(3) len(2) n]
    using that last_nth by (simp add: Let_def)
  with seq run iff show "\<exists>sequence s1 f1 s2 f2.
            johnsons_rule processing_times = Inr sequence
          \<and> calculate_schedule processing_times sequence = Inr (s1, f1, s2, f2)
          \<and> (last f2 = 0) = all_zero processing_times
          \<and> (last f2 = 0 \<longrightarrow> pipeline processing_times = Inl ZeroDivisionError)"
    by blast
qed

theorem zero_makespan_fails_witness:
  "length [3 :: rat, 0] = 2 \<and> length [0 :: rat, 0] = 2 \<and> length [1 :: rat, 2] = 2
   \<and> length [4 :: rat, 5] = 2 \<and> (1 :: nat) \<le> 2 \<and> [0 :: rat, 0] ! (2 - 1) = 0
   \<and> calculate_metrics [3, 0] [0, 0] [1, 2] [4, 5] = Inl ZeroDivisionError
   \<and> [(0 :: rat, 0 :: rat), (0, 0)] \<noteq> [] \<and> \<not> any_negative [(0, 0), (0, 0)]
   \<and> all_zero [(0, 0), (0, 0)]
   \<and> pipeline [(0, 0), (0, 0)] = Inl ZeroDivisionError"
proof -
  have h1: "length [3 :: rat, 0] = 2 \<and> length [0 :: rat, 0] = 2 \<and> length [1 :: rat, 2] = 2
      \<and> length [4 :: rat, 5] = 2 \<and> (1 :: nat) \<le> 2 \<and> [0 :: rat, 0] ! (2 - 1) = 0"
    by simp
  have h2: "[(0 :: rat, 0 :: rat), (0, 0)] \<noteq> [] \<and> \<not> any_negative [(0, 0), (0, 0)]"
    by (simp add: any_negative_def)
  have az: "all_zero [(0, 0), (0, 0)]" by (simp add: all_zero_def)
  note t = zero_makespan_fails [of "[3, 0]" 2 "[0, 0]" "[1, 2]" "[4, 5]" "[(0, 0), (0, 0)]"]
  from t h1 have m: "calculate_metrics [3, 0] [0, 0] [1, 2] [4, 5] = Inl ZeroDivisionError"
    by blast
  from t h2 az have p: "pipeline [(0, 0), (0, 0)] = Inl ZeroDivisionError" by blast
  from h1 h2 az m p show ?thesis by blast
qed



text \<open>
  C9. On the default table the loop ends with \<open>left = [2, 0, 5, 4, 8]\<close> and
  \<open>right = [3, 9, 6, 7, 1]\<close>: index 2 is at the front of the left list and first in the
  sequence, index 9 is in the right list, the sequence is a permutation of \<open>0..9\<close>, and the
  makespan returned by \<open>calculate_metrics\<close> is 56, the value of \<open>finish_m2[9]\<close> that
  \<open>calculate_schedule\<close> produces for this sequence.
\<close>

theorem default_scenario:
  "johnsons_lists default_times = Inr ([2, 0, 5, 4, 8], [3, 9, 6, 7, 1])
   \<and> johnsons_rule default_times = Inr [2, 0, 5, 4, 8, 3, 9, 6, 7, 1]
   \<and> hd [2, 0, 5, 4, 8, 3, 9, 6, 7, 1] = (2 :: nat)
   \<and> (9 :: nat) \<in> set [3, 9, 6, 7, 1]
   \<and> mset [2, 0, 5, 4, 8, 3, 9, 6, 7, 1] = mset [0..<length default_times]
   \<and> calculate_schedule default_times [2, 0, 5, 4, 8, 3, 9, 6, 7, 1] =
       Inr ([0, 2, 5, 10, 16, 22, 29, 39, 44, 47],
            [2, 5, 10, 16, 22, 29, 39, 44, 47, 53],
            [2, 10, 15, 24, 30, 38, 44, 48, 52, 54],
            [10, 15, 24, 30, 38, 44, 48, 52, 54, 56])
   \<and> [10, 15, 24, 30, 38, 44, 48, 52, 54, 56] ! 9 = (56 :: rat)
   \<and> calculate_metrics [2, 5, 10, 16, 22, 29, 39, 44, 47, 53]
         [10, 15, 24, 30, 38, 44, 48, 52, 54, 56]
         [0, 2, 5, 10, 16, 22, 29, 39, 44, 47]
         [2, 10, 15, 24, 30, 38, 44, 48, 52, 54] = Inr (56, 3, 2, 5 / 112, 107 / 112)"
proof (intro conjI)
  show "johnsons_lists default_times = Inr ([2, 0, 5, 4, 8], [3, 9, 6, 7, 1])"
    by code_simp
  show "johnsons_rule default_times = Inr [2, 0, 5, 4, 8, 3, 9, 6, 7, 1]"
    by code_simp
  show "hd [2, 0, 5, 4, 8, 3, 9, 6, 7, 1] = (2 :: nat)" by simp
  show "(9 :: nat) \<in> set [3, 9, 6, 7, 1]" by simp
  show "mset [2, 0, 5, 4, 8, 3, 9, 6, 7, 1] = mset [0..<length default_times]"
    by code_simp
  show "calculate_schedule default_times [2, 0, 5, 4, 8, 3, 9, 6, 7, 1] =
       Inr ([0, 2, 5, 10, 16, 22, 29, 39, 44, 47],
            [2, 5, 10, 16, 22, 29, 39, 44, 47, 53],
            [2, 10, 15, 24, 30, 38, 44, 48, 52, 54],
            [10, 15, 24, 30, 38, 44, 48, 52, 54, 56])"
    by code_simp
  show "[10, 15, 24, 30, 38, 44, 48, 52, 54, 56] ! 9 = (56 :: rat)" by code_simp
  show "calculate_metrics [2, 5, 10, 16, 22, 29, 39, 44, 47, 53]
         [10, 15, 24, 30, 38, 44, 48, 52, 54, 56]
         [0, 2, 5, 10, 16, 22, 29, 39, 44, 47]
         [2, 10, 15, 24, 30, 38, 44, 48, 52, 54] = Inr (56, 3, 2, 5 / 112, 107 / 112)"
    by code_simp
qed

text \<open>
  C10. For non-negative processing times and a sequence that is a permutation of the
  indices, the \<open>finish_m2\<close> array of \<open>calculate_schedule\<close> is nondecreasing, every entry of
  the four arrays is at most \<open>finish_m2[n-1]\<close>, and the makespan that \<open>calculate_metrics\<close>
  returns on these arrays is the largest timestamp of the schedule.
\<close>

theorem makespan_is_latest:
  assumes "\<not> any_negative processing_times"
    and "mset sequence = mset [0..<length processing_times]"
  shows "\<exists>start_m1 finish_m1 start_m2 finish_m2.
     calculate_schedule processing_times sequence
       = Inr (start_m1, finish_m1, start_m2, finish_m2)
     \<and> sorted finish_m2
     \<and> (\<forall>x \<in> set start_m1 \<union> set finish_m1 \<union> set start_m2 \<union> set finish_m2.
          x \<le> finish_m2 ! (length sequence - 1))
     \<and> (\<forall>makespan delay_m1 delay_m2 average_delay utilization.
          calculate_metrics finish_m1 finish_m2 start_m1 start_m2
            = Inr (makespan, delay_m1, delay_m2, average_delay, utilization) \<longrightarrow>
          makespan = Max (set start_m1 \<union> set finish_m1 \<union> set start_m2 \<union> set finish_m2))"
proof -
  let ?n = "length sequence"
  from assms(2) have rng: "in_range processing_times sequence" by (rule perm_in_range)
  then obtain s1 f1 s2 f2 where
    run: "calculate_schedule processing_times sequence = Inr (s1, f1, s2, f2)" and
    inv: "schedule_inv processing_times sequence ?n (s1, f1, s2, f2)"
    using calculate_schedule_inv by blast
  note len = schedule_inv_length [OF inv]
  note nn = assms(1)
  let ?S = "set s1 \<union> set f1 \<union> set s2 \<union> set f2"
  have srt: "sorted f2" using inv rng nn by (rule schedule_f2_sorted)
  have le_last: "x \<le> last f2" if "x \<in> ?S" for x
  proof -
    from that len obtain i where "i < ?n" "x = s1 ! i \<or> x = f1 ! i \<or> x = s2 ! i \<or> x = f2 ! i"
      by (auto simp: in_set_conv_nth)
    with schedule_le_last [OF inv rng nn] show ?thesis by blast
  qed
  have last_nth: "last f2 = f2 ! (?n - 1)" if "f2 \<noteq> []"
    using that len by (simp add: last_conv_nth)
  have bound: "\<forall>x \<in> ?S. x \<le> f2 ! (?n - 1)"
  proof
    fix x assume x: "x \<in> ?S"
    with len have "f2 \<noteq> []" by auto
    with le_last [OF x] last_nth show "x \<le> f2 ! (?n - 1)" by simp
  qed
  have mx: "mk = Max ?S" if "calculate_metrics f1 f2 s1 s2 = Inr (mk, d1, d2, avg, util)"
    for mk d1 d2 avg util
  proof -
    from metrics_makespan [OF that] have ne: "f2 \<noteq> []" and mk: "mk = last f2" by simp_all
    have "Max ?S = last f2"
    proof (rule Max_eqI)
      show "finite ?S" by simp
      show "y \<le> last f2" if "y \<in> ?S" for y using that by (rule le_last)
      show "last f2 \<in> ?S" using ne by simp
    qed
    with mk show ?thesis by simp
  qed
  from run srt bound mx show ?thesis by blast
qed

theorem makespan_is_latest_witness:
  "\<not> any_negative [(4, 2), (1, 3)]
   \<and> mset [1, 0] = mset [0..<length [(4 :: rat, 2 :: rat), (1, 3)]]
   \<and> calculate_schedule [(4, 2), (1, 3)] [1, 0] = Inr ([0, 1], [1, 5], [1, 5], [4, 7])
   \<and> sorted [4 :: rat, 7]
   \<and> calculate_metrics [1, 5] [4, 7] [0, 1] [1, 5] = Inr (7, 2, 2, 2 / 7, 5 / 7)
   \<and> (7 :: rat) = Max (set [0, 1] \<union> set [1, 5] \<union> set [1, 5] \<union> set [4, 7])"
proof -
  have a: "\<not> any_negative [(4, 2), (1, 3)]" by code_simp
  have b: "mset [1, 0] = mset [0..<length [(4 :: rat, 2 :: rat), (1, 3)]]" by code_simp
  have c: "calculate_schedule [(4, 2), (1, 3)] [1, 0] = Inr ([0, 1], [1, 5], [1, 5], [4, 7])"
    by code_simp
  have d: "calculate_metrics [1, 5] [4, 7] [0, 1] [1, 5] = Inr (7, 2, 2, 2 / 7, 5 / 7)"
    by code_simp
  from makespan_is_latest [OF a b] c d
  have "sorted [4 :: rat, 7]"
    and "(7 :: rat) = Max (set [0, 1] \<union> set [1, 5] \<union> set [1, 5] \<union> set [4, 7])"
    by auto
  with a b c d show ?thesis by blast
qed

end
